theory Spec2Isabelle
  imports Main
begin

section \<open>The message buffer of chatdemo.py\<close>

text \<open>
  The class \<open>MessageBuffer\<close> of \<open>src/chatdemo.py\<close> keeps, for every room, a bounded
  list of messages (the cache) and a set of pending futures (the waiters). Its four
  methods are embedded below as functions on an explicit state.

  \<^item> A message is the dictionary built by \<open>MessageNewHandler.post\<close>, with the keys
    \<open>"id"\<close>, \<open>"timestamp"\<close> and \<open>"body"\<close>, all strings.
  \<^item> A future is an object with an identity. It is modelled by its address, a natural
    number; \<open>Future()\<close> takes the next unused address. The class \<open>Future\<close> itself
    belongs to the tornado library, so the model does not fix what a second
    \<open>set_result\<close> would do: the state records, for every future, the arguments of
    all \<open>set_result\<close> calls made on it, oldest first.
  \<^item> A room name is any dictionary key (the handlers pass a string or \<open>None\<close>), so
    its type is a parameter.
  \<^item> A failing subscript \<open>self.room[room]\<close> and a failing \<open>set.remove\<close> raise
    \<open>KeyError\<close>: the methods return \<open>Inl KeyError\<close> there.
\<close>

subsection \<open>Data\<close>

datatype error = KeyError

record message =
  id_msg :: string
  timestamp :: string
  body :: string

type_synonym fut = nat

text \<open>The dictionary \<open>{'cache': [], 'waiters': set()}\<close> stored for each room.\<close>

record room_entry =
  cache :: "message list"
  waiters :: "fut set"

text \<open>
  \<open>room\<close> is the attribute \<open>self.room\<close>; \<open>results\<close> and \<open>next_fut\<close> are the store
  of future objects.
\<close>

record 'r state =
  room :: "'r \<Rightarrow> room_entry option"
  results :: "fut \<Rightarrow> message list list"
  next_fut :: fut

text \<open>
  \<open>self.cache_size = 200\<close> is assigned in \<open>__init__\<close> and never written again.
\<close>

definition cache_size :: nat where
  "cache_size = 200"

text \<open>\<open>MessageBuffer()\<close>: no room, no future constructed yet.\<close>

definition init :: "'r state" where
  "init = \<lparr>room = (\<lambda>r. None), results = (\<lambda>f. []), next_fut = 0\<rparr>"

subsection \<open>Helpers for the Python primitives\<close>

text \<open>Running a statement after one that may have raised.\<close>

fun bind_err :: "error + 'a \<Rightarrow> ('a \<Rightarrow> error + 'b) \<Rightarrow> error + 'b" where
  "bind_err (Inl e) g = Inl e"
| "bind_err (Inr x) g = g x"

text \<open>The slice \<open>xs[-n:]\<close>; Python reads \<open>xs[-0:]\<close> as \<open>xs[0:]\<close>.\<close>

definition last_n :: "nat \<Rightarrow> 'a list \<Rightarrow> 'a list" where
  "last_n n xs = (if n = 0 then xs else drop (length xs - n) xs)"

text \<open>\<open>future.set_result(ms)\<close>.\<close>

definition set_result :: "'r state \<Rightarrow> fut \<Rightarrow> message list \<Rightarrow> 'r state" where
  "set_result s future ms = s\<lparr>results := (results s)(future := results s future @ [ms])\<rparr>"

text \<open>\<open>Future()\<close>: a new object, on which \<open>set_result\<close> was never called.\<close>

definition Future :: "'r state \<Rightarrow> fut \<times> 'r state" where
  "Future s = (next_fut s, s\<lparr>next_fut := Suc (next_fut s)\<rparr>)"

text \<open>Reading the cache and the waiters of a room, empty when the room is absent.\<close>

definition room_cache :: "'r state \<Rightarrow> 'r \<Rightarrow> message list" where
  "room_cache s r = (case room s r of None \<Rightarrow> [] | Some e \<Rightarrow> cache e)"

definition room_waiters :: "'r state \<Rightarrow> 'r \<Rightarrow> fut set" where
  "room_waiters s r = (case room s r of None \<Rightarrow> {} | Some e \<Rightarrow> waiters e)"

subsection \<open>create_new_room\<close>

text \<open>
  \<^verbatim>\<open>
  def create_new_room(self, room):
      if room not in self.room:
          self.room[room] = {'cache': [], 'waiters': set()}
      return True
  \<close>
\<close>

definition create_new_room :: "'r state \<Rightarrow> 'r \<Rightarrow> bool \<times> 'r state" where
  "create_new_room s r =
     (if room s r = None
      then (True, s\<lparr>room := (room s)(r \<mapsto> \<lparr>cache = [], waiters = {}\<rparr>)\<rparr>)
      else (True, s))"

subsection \<open>wait_for_messages\<close>

text \<open>
  The scan of \<open>wait_for_messages\<close>, run on the reversed cache with \<open>new_count = 0\<close>:
  \<^verbatim>\<open>
  for msg in reversed(self.room[room]['cache']):
      if msg["id"] == cursor:
          break
      new_count += 1
  \<close>
\<close>

fun count_new :: "message list \<Rightarrow> string \<Rightarrow> nat \<Rightarrow> nat" where
  "count_new [] cursor new_count = new_count"
| "count_new (msg # rest) cursor new_count =
     (if id_msg msg = cursor then new_count else count_new rest cursor (Suc new_count))"

text \<open>\<open>self.room[room]['waiters'].add(result_future)\<close>.\<close>

definition add_waiter :: "'r state \<Rightarrow> 'r \<Rightarrow> fut \<Rightarrow> error + 'r state" where
  "add_waiter s r future =
     (case room s r of
        None \<Rightarrow> Inl KeyError
      | Some e \<Rightarrow> Inr (s\<lparr>room := (room s)(r \<mapsto> e\<lparr>waiters := insert future (waiters e)\<rparr>)\<rparr>))"

text \<open>
  The body of \<open>if cursor:\<close>, for a cursor that is neither \<open>None\<close> nor the empty string.
  It returns \<open>None\<close> when control falls through to the registration of the waiter.
\<close>

definition replay :: "'r state \<Rightarrow> 'r \<Rightarrow> fut \<Rightarrow> string \<Rightarrow> error + 'r state option" where
  "replay s r result_future cursor =
     (case room s r of
        None \<Rightarrow> Inl KeyError
      | Some e \<Rightarrow>
          (let new_count = count_new (rev (cache e)) cursor 0
           in if new_count \<noteq> 0
              then Inr (Some (set_result s result_future (last_n new_count (cache e))))
              else Inr None))"

text \<open>
  \<^verbatim>\<open>
  def wait_for_messages(self, room, cursor=None):
      self.create_new_room(room)
      result_future = Future()
      if cursor:
          new_count = 0
          for msg in reversed(self.room[room]['cache']):
              ...
          if new_count:
              result_future.set_result(self.room[room]['cache'][-new_count:])
              return result_future
      self.room[room]['waiters'].add(result_future)
      return result_future
  \<close>
  \<open>if cursor:\<close> is false for \<open>None\<close> and for the empty string.
\<close>

definition wait_for_messages ::
  "'r state \<Rightarrow> 'r \<Rightarrow> string option \<Rightarrow> error + (fut \<times> 'r state)" where
  "wait_for_messages s r cursor =
     (let s1 = snd (create_new_room s r);
          (result_future, s2) = Future s1;
          register = bind_err (add_waiter s2 r result_future) (\<lambda>s3. Inr (result_future, s3))
      in case cursor of
           None \<Rightarrow> register
         | Some c \<Rightarrow>
             if c = [] then register
             else bind_err (replay s2 r result_future c)
                    (\<lambda>done. case done of
                               Some s3 \<Rightarrow> Inr (result_future, s3)
                             | None \<Rightarrow> register))"

subsection \<open>cancel_wait\<close>

text \<open>
  \<^verbatim>\<open>
  def cancel_wait(self, room, future):
      self.room[room]['waiters'].remove(future)
      future.set_result([])
  \<close>
  \<open>set.remove\<close> raises \<open>KeyError\<close> when the element is not in the set.
\<close>

definition cancel_wait :: "'r state \<Rightarrow> 'r \<Rightarrow> fut \<Rightarrow> error + 'r state" where
  "cancel_wait s r future =
     (case room s r of
        None \<Rightarrow> Inl KeyError
      | Some e \<Rightarrow>
          if future \<in> waiters e
          then Inr (set_result
                     (s\<lparr>room := (room s)(r \<mapsto> e\<lparr>waiters := waiters e - {future}\<rparr>)\<rparr>)
                     future [])
          else Inl KeyError)"

subsection \<open>new_messages\<close>

text \<open>
  \<^verbatim>\<open>
  def new_messages(self, room, messages):
      self.create_new_room(room)
      for future in self.room[room]['waiters']:
          future.set_result(messages)
      self.room[room]['waiters'] = set()
      self.room[room]['cache'].extend(messages)
      if len(self.room[room]['cache']) > self.cache_size:
          self.room[room]['cache'] = self.room[room]['cache'][-self.cache_size:]
  \<close>
  Each statement after the first is one function; the call to \<open>logging.info\<close> changes
  nothing of the buffer and is left out.
\<close>

text \<open>
  The \<open>for\<close> loop: every future of the set gets one \<open>set_result(messages)\<close>, the
  others none. The set holds each future once, so the order of the iteration does not
  matter (lemma \<open>resolve_waiters_loop\<close> below).
\<close>

definition resolve_waiters :: "'r state \<Rightarrow> 'r \<Rightarrow> message list \<Rightarrow> error + 'r state" where
  "resolve_waiters s r messages =
     (case room s r of
        None \<Rightarrow> Inl KeyError
      | Some e \<Rightarrow>
          Inr (s\<lparr>results := (\<lambda>f. if f \<in> waiters e then results s f @ [messages]
                                  else results s f)\<rparr>))"

definition clear_waiters :: "'r state \<Rightarrow> 'r \<Rightarrow> error + 'r state" where
  "clear_waiters s r =
     (case room s r of
        None \<Rightarrow> Inl KeyError
      | Some e \<Rightarrow> Inr (s\<lparr>room := (room s)(r \<mapsto> e\<lparr>waiters := {}\<rparr>)\<rparr>))"

definition extend_cache :: "'r state \<Rightarrow> 'r \<Rightarrow> message list \<Rightarrow> error + 'r state" where
  "extend_cache s r messages =
     (case room s r of
        None \<Rightarrow> Inl KeyError
      | Some e \<Rightarrow> Inr (s\<lparr>room := (room s)(r \<mapsto> e\<lparr>cache := cache e @ messages\<rparr>)\<rparr>))"

definition trim_cache :: "'r state \<Rightarrow> 'r \<Rightarrow> error + 'r state" where
  "trim_cache s r =
     (case room s r of
        None \<Rightarrow> Inl KeyError
      | Some e \<Rightarrow>
          if length (cache e) > cache_size
          then Inr (s\<lparr>room := (room s)(r \<mapsto> e\<lparr>cache := last_n cache_size (cache e)\<rparr>)\<rparr>)
          else Inr s)"

definition new_messages :: "'r state \<Rightarrow> 'r \<Rightarrow> message list \<Rightarrow> error + 'r state" where
  "new_messages s r messages =
     bind_err (resolve_waiters (snd (create_new_room s r)) r messages) (\<lambda>s1.
     bind_err (clear_waiters s1 r) (\<lambda>s2.
     bind_err (extend_cache s2 r messages) (\<lambda>s3.
     trim_cache s3 r)))"

text \<open>
  The states of one call, in the order of the statements: after \<open>create_new_room\<close>,
  after the \<open>for\<close> loop, after the waiters are reset, after \<open>extend\<close>, and at the end.
\<close>

definition new_messages_trace ::
  "'r state \<Rightarrow> 'r \<Rightarrow> message list \<Rightarrow> (error + 'r state) list" where
  "new_messages_trace s r messages =
     (let t0 = Inr (snd (create_new_room s r));
          t1 = bind_err t0 (\<lambda>s0. resolve_waiters s0 r messages);
          t2 = bind_err t1 (\<lambda>s1. clear_waiters s1 r);
          t3 = bind_err t2 (\<lambda>s2. extend_cache s2 r messages);
          t4 = bind_err t3 (\<lambda>s3. trim_cache s3 r)
      in [t0, t1, t2, t3, t4])"

subsection \<open>Sequences of calls\<close>

text \<open>
  A call of one of the four methods. A call that raises has changed nothing when it
  raises (\<open>cancel_wait\<close> raises in its first statement), so the buffer stays as it was.
\<close>

datatype 'r op =
    Wait 'r "string option"
  | Cancel 'r fut
  | New 'r "message list"
  | Create 'r

fun step :: "'r state \<Rightarrow> 'r op \<Rightarrow> 'r state" where
  "step s (Wait r cursor) =
     (case wait_for_messages s r cursor of Inl e \<Rightarrow> s | Inr (f, s') \<Rightarrow> s')"
| "step s (Cancel r future) =
     (case cancel_wait s r future of Inl e \<Rightarrow> s | Inr s' \<Rightarrow> s')"
| "step s (New r messages) =
     (case new_messages s r messages of Inl e \<Rightarrow> s | Inr s' \<Rightarrow> s')"
| "step s (Create r) = snd (create_new_room s r)"

definition run :: "'r state \<Rightarrow> 'r op list \<Rightarrow> 'r state" where
  "run s ops = foldl step s ops"

text \<open>The messages published to room \<open>r\<close> by a sequence of calls, in arrival order.\<close>

fun published :: "'r \<Rightarrow> 'r op list \<Rightarrow> message list" where
  "published r [] = []"
| "published r (New r' messages # ops) =
     (if r' = r then messages @ published r ops else published r ops)"
| "published r (_ # ops) = published r ops"

text \<open>A call that resolves the future \<open>f\<close> waiting in room \<open>r\<close>, if it is still waiting.\<close>

fun targets :: "'r \<Rightarrow> fut \<Rightarrow> 'r op \<Rightarrow> bool" where
  "targets r f (New r' messages) = (r' = r)"
| "targets r f (Cancel r' f') = (r' = r \<and> f' = f)"
| "targets r f _ = False"

subsection \<open>Sample messages\<close>

text \<open>
  Messages used where a theorem is applied to a concrete buffer: three with different
  ids, one that repeats the id of the first, and one whose id is the empty string.
\<close>

definition m1 :: message where
  "m1 = \<lparr>id_msg = ''m1'', timestamp = ''1'', body = ''hi''\<rparr>"

definition m2 :: message where
  "m2 = \<lparr>id_msg = ''m2'', timestamp = ''2'', body = ''hello''\<rparr>"

definition m3 :: message where
  "m3 = \<lparr>id_msg = ''m3'', timestamp = ''3'', body = ''bye''\<rparr>"



subsection \<open>The invariant of the buffer\<close>

text \<open>
  Every future in a waiter set has been constructed and has no result yet; no future
  waits in two rooms; no future has more than one result; a future that is not yet
  constructed has none.
\<close>

definition buffer_inv :: "'r state \<Rightarrow> bool" where
  "buffer_inv s \<longleftrightarrow>
     (\<forall>r f. f \<in> room_waiters s r \<longrightarrow> f < next_fut s \<and> results s f = [])
   \<and> (\<forall>r r' f. f \<in> room_waiters s r \<and> f \<in> room_waiters s r' \<longrightarrow> r = r')
   \<and> (\<forall>f. length (results s f) \<le> 1)
   \<and> (\<forall>f. next_fut s \<le> f \<longrightarrow> results s f = [])"

section \<open>Basic facts\<close>

lemma create_new_room_room:
  "room (snd (create_new_room s r)) =
     (if room s r = None then (room s)(r \<mapsto> \<lparr>cache = [], waiters = {}\<rparr>) else room s)"
  by (simp add: create_new_room_def)

lemma create_new_room_present: "room (snd (create_new_room s r)) r \<noteq> None"
  by (simp add: create_new_room_def)

lemma create_new_room_frame:
  "results (snd (create_new_room s r)) = results s"
  "next_fut (snd (create_new_room s r)) = next_fut s"
  by (simp_all add: create_new_room_def)

lemma entry_upd:
  "(e::room_entry)\<lparr>waiters := w\<rparr> = \<lparr>cache = cache e, waiters = w\<rparr>"
  "(e::room_entry)\<lparr>cache := c\<rparr> = \<lparr>cache = c, waiters = waiters e\<rparr>"
  by (cases e, simp)+

lemma last_n_le: "length xs \<le> n \<Longrightarrow> last_n n xs = xs"
  by (simp add: last_n_def)

lemma last_n_trim:
  "last_n cache_size (last_n cache_size h @ ms) = last_n cache_size (h @ ms)"
proof (cases "length h \<le> cache_size")
  case True
  then show ?thesis by (simp add: last_n_le)
next
  case False
  then show ?thesis by (simp add: last_n_def cache_size_def add.commute)
qed

lemma length_last_n: "n \<noteq> 0 \<Longrightarrow> length (last_n n xs) \<le> n"
  by (simp add: last_n_def)

text \<open>The scan counts the messages behind the newest one that carries the cursor.\<close>

lemma count_new_takeWhile:
  "count_new xs c n = n + length (takeWhile (\<lambda>m. id_msg m \<noteq> c) xs)"
  by (induction xs arbitrary: n) auto

lemma room_waiters_upd [simp]:
  "room_waiters (s\<lparr>room := (room t)(r \<mapsto> e)\<rparr>) r' =
     (if r' = r then waiters e else room_waiters t r')"
  by (simp add: room_waiters_def)

lemma room_cache_upd [simp]:
  "room_cache (s\<lparr>room := (room t)(r \<mapsto> e)\<rparr>) r' =
     (if r' = r then cache e else room_cache t r')"
  by (simp add: room_cache_def)

lemma room_waiters_frame [simp]:
  "room_waiters (s\<lparr>results := x\<rparr>) r = room_waiters s r"
  "room_waiters (s\<lparr>next_fut := n\<rparr>) r = room_waiters s r"
  "room_cache (s\<lparr>results := x\<rparr>) r = room_cache s r"
  "room_cache (s\<lparr>next_fut := n\<rparr>) r = room_cache s r"
  by (simp_all add: room_waiters_def room_cache_def)

lemma create_waiters [simp]: "room_waiters (snd (create_new_room s r)) r' = room_waiters s r'"
  by (simp add: create_new_room_def room_waiters_def)

lemma create_cache [simp]: "room_cache (snd (create_new_room s r)) r' = room_cache s r'"
  by (simp add: create_new_room_def room_cache_def)

subsection \<open>What each method returns\<close>

lemma new_messages_eq:
  "new_messages s r ms =
     Inr (s\<lparr>room := (room s)(r \<mapsto> \<lparr>cache = last_n cache_size (room_cache s r @ ms),
                                   waiters = {}\<rparr>),
            results := (\<lambda>f. if f \<in> room_waiters s r then results s f @ [ms]
                            else results s f)\<rparr>)"
  by (auto simp add: new_messages_def create_new_room_def resolve_waiters_def
      clear_waiters_def extend_cache_def trim_cache_def room_cache_def room_waiters_def
      last_n_le entry_upd split: option.splits cong: if_cong)

lemma wait_register:
  assumes "cursor = None \<or> cursor = Some []
           \<or> (\<exists>c. cursor = Some c \<and> count_new (rev (room_cache s r)) c 0 = 0)"
  shows "wait_for_messages s r cursor =
     Inr (next_fut s,
          s\<lparr>room := (room s)(r \<mapsto> \<lparr>cache = room_cache s r,
                                   waiters = insert (next_fut s) (room_waiters s r)\<rparr>),
            next_fut := Suc (next_fut s)\<rparr>)"
  using assms
  by (auto simp add: wait_for_messages_def create_new_room_def Future_def add_waiter_def
      replay_def room_cache_def room_waiters_def Let_def entry_upd split: option.splits)

lemma wait_replay:
  assumes "c \<noteq> []" and "count_new (rev (room_cache s r)) c 0 = n" and "n \<noteq> 0"
  shows "wait_for_messages s r (Some c) =
     Inr (next_fut s,
          s\<lparr>results := (results s)(next_fut s := results s (next_fut s)
                                                 @ [last_n n (room_cache s r)]),
            next_fut := Suc (next_fut s)\<rparr>)"
  using assms
  by (auto simp add: wait_for_messages_def create_new_room_def Future_def add_waiter_def
      replay_def room_cache_def room_waiters_def Let_def set_result_def entry_upd
      split: option.splits)

lemma cancel_wait_eq:
  "cancel_wait s r f =
     (if f \<in> room_waiters s r
      then Inr (s\<lparr>room := (room s)(r \<mapsto> \<lparr>cache = room_cache s r,
                                         waiters = room_waiters s r - {f}\<rparr>),
                  results := (results s)(f := results s f @ [[]])\<rparr>)
      else Inl KeyError)"
  by (auto simp add: cancel_wait_def room_cache_def room_waiters_def set_result_def
      entry_upd split: option.splits)

lemma wait_cases:
  obtains (register) "wait_for_messages s r cursor =
     Inr (next_fut s,
          s\<lparr>room := (room s)(r \<mapsto> \<lparr>cache = room_cache s r,
                                   waiters = insert (next_fut s) (room_waiters s r)\<rparr>),
            next_fut := Suc (next_fut s)\<rparr>)"
  | (replay) c n where "cursor = Some c" "c \<noteq> []" "n = count_new (rev (room_cache s r)) c 0" "n \<noteq> 0"
     "wait_for_messages s r cursor =
     Inr (next_fut s,
          s\<lparr>results := (results s)(next_fut s := results s (next_fut s)
                                                 @ [last_n n (room_cache s r)]),
            next_fut := Suc (next_fut s)\<rparr>)"
proof (cases "cursor = None \<or> cursor = Some []
           \<or> (\<exists>c. cursor = Some c \<and> count_new (rev (room_cache s r)) c 0 = 0)")
  case True
  from wait_register [OF this] show ?thesis by (rule register)
next
  case False
  then obtain c where c: "cursor = Some c" "c \<noteq> []" "count_new (rev (room_cache s r)) c 0 \<noteq> 0"
    by (cases cursor) auto
  show ?thesis
    using replay [OF c(1,2) refl c(3)] wait_replay [OF c(2) refl c(3)] c(1) by simp
qed

subsection \<open>The scan of the cache\<close>


lemma count_new_missing:
  assumes "c \<notin> id_msg ` set h"
  shows "count_new (rev h) c 0 = length h"
proof -
  have "\<forall>x \<in> set (rev h). id_msg x \<noteq> c"
    using assms by auto
  then have "takeWhile (\<lambda>x. id_msg x \<noteq> c) (rev h) = rev h"
    by (simp only: takeWhile_eq_all_conv)
  then show ?thesis
    unfolding count_new_takeWhile by (simp only: length_rev add_0)
qed

lemma count_new_newest:
  assumes "h \<noteq> []" and "id_msg (last h) = c"
  shows "count_new (rev h) c 0 = 0"
  using assms by (cases h rule: rev_cases) simp_all

lemma last_n_suffix: "post \<noteq> [] \<Longrightarrow> last_n (length post) (pre @ post) = post"
  by (simp add: last_n_def)

subsection \<open>The statements of new_messages, one by one\<close>

text \<open>
  The \<open>for\<close> loop, run in any order over the futures of the set, is the function
  \<open>resolve_waiters\<close>.
\<close>

lemma set_result_loop:
  "distinct fs \<Longrightarrow>
   foldl (\<lambda>s f. set_result s f ms) s fs =
     s\<lparr>results := (\<lambda>f. if f \<in> set fs then results s f @ [ms] else results s f)\<rparr>"
proof (induction fs arbitrary: s)
  case Nil
  then show ?case by simp
next
  case (Cons a fs)
  then have "foldl (\<lambda>s f. set_result s f ms) (set_result s a ms) fs =
     (set_result s a ms)\<lparr>results := (\<lambda>f. if f \<in> set fs then results (set_result s a ms) f @ [ms]
                                           else results (set_result s a ms) f)\<rparr>"
    by simp
  also have "\<dots> = s\<lparr>results := (\<lambda>f. if f \<in> set (a # fs) then results s f @ [ms]
                                  else results s f)\<rparr>"
    using Cons.prems by (auto simp add: set_result_def fun_eq_iff)
  finally show ?case by simp
qed

lemma resolve_waiters_loop:
  assumes "room s r = Some e" and "distinct fs" and "set fs = waiters e"
  shows "resolve_waiters s r ms = Inr (foldl (\<lambda>s f. set_result s f ms) s fs)"
  using assms by (simp add: resolve_waiters_def set_result_loop)

lemma new_messages_steps:
  assumes e: "room (snd (create_new_room s r)) r = Some e"
    and s0_def: "s0 = snd (create_new_room s r)"
    and s1_def: "s1 = s0\<lparr>results := (\<lambda>f. if f \<in> waiters e then results s0 f @ [ms]
                                  else results s0 f)\<rparr>"
    and s2_def: "s2 = s1\<lparr>room := (room s1)(r \<mapsto> e\<lparr>waiters := {}\<rparr>)\<rparr>"
    and s3_def: "s3 = s2\<lparr>room := (room s2)(r \<mapsto> e\<lparr>waiters := {}, cache := cache e @ ms\<rparr>)\<rparr>"
    and s4_def: "s4 = (if length (cache e @ ms) > cache_size
             then s3\<lparr>room := (room s3)(r \<mapsto> e\<lparr>waiters := {},
                                     cache := last_n cache_size (cache e @ ms)\<rparr>)\<rparr>
             else s3)"
  shows "new_messages_trace s r ms = [Inr s0, Inr s1, Inr s2, Inr s3, Inr s4]"
    and "new_messages s r ms = Inr s4"
proof -
  have 1: "resolve_waiters s0 r ms = Inr s1"
    using e by (simp add: resolve_waiters_def s0_def s1_def cong: if_cong)
  have 2: "clear_waiters s1 r = Inr s2"
    using e by (simp add: clear_waiters_def s0_def s1_def s2_def)
  have 3: "extend_cache s2 r ms = Inr s3"
    by (simp add: extend_cache_def s2_def s3_def)
  have 4: "trim_cache s3 r = Inr s4"
    by (simp add: trim_cache_def s3_def s4_def)
  show "new_messages_trace s r ms = [Inr s0, Inr s1, Inr s2, Inr s3, Inr s4]"
    unfolding new_messages_trace_def Let_def s0_def [symmetric]
    by (simp only: bind_err.simps 1 2 3 4)
  show "new_messages s r ms = Inr s4"
    unfolding new_messages_def s0_def [symmetric]
    by (simp only: bind_err.simps 1 2 3 4)
qed

lemma new_messages_last_trace:
  "new_messages s r ms = last (new_messages_trace s r ms)"
proof -
  obtain e where e: "room (snd (create_new_room s r)) r = Some e"
    using create_new_room_present [of s r] by auto
  from new_messages_steps [OF e refl refl refl refl refl, of ms]
  obtain t0 t1 t2 t3 t4 where "new_messages_trace s r ms = [t0, t1, t2, t3, t4]"
    and "new_messages s r ms = t4"
    by blast
  then show ?thesis
    by simp
qed

text \<open>Unfolding every method, to run the model on a concrete buffer.\<close>

lemmas buffer_eval =
  run_def init_def wait_for_messages_def create_new_room_def Future_def add_waiter_def
  replay_def set_result_def cancel_wait_def new_messages_def resolve_waiters_def
  clear_waiters_def extend_cache_def trim_cache_def room_waiters_def room_cache_def
  last_n_def cache_size_def Let_def

subsection \<open>Sequences of calls\<close>

lemma step_cache:
  "room_cache (step s x) r =
     (case x of New r' ms \<Rightarrow> if r' = r then last_n cache_size (room_cache s r @ ms)
                              else room_cache s r
              | _ \<Rightarrow> room_cache s r)"
proof (cases x)
  case (Wait r' cursor)
  then show ?thesis
    by (cases rule: wait_cases [of s r' cursor]) simp_all
next
  case (Cancel r' f)
  then show ?thesis by (simp add: cancel_wait_eq)
next
  case (New r' ms)
  then show ?thesis by (simp add: new_messages_eq)
next
  case (Create r')
  then show ?thesis by simp
qed

lemma run_Cons: "run s (x # ops) = run (step s x) ops"
  by (simp add: run_def)

lemma run_Nil: "run s [] = s"
  by (simp add: run_def)

lemma run_append: "run s (ops @ ops') = run (run s ops) ops'"
  by (simp add: run_def)

lemma step_cache_bound:
  "length (room_cache s r) \<le> cache_size \<Longrightarrow> length (room_cache (step s x) r) \<le> cache_size"
  by (cases x) (simp_all add: step_cache length_last_n cache_size_def del: step.simps)

lemma run_cache:
  "length (room_cache s r) \<le> cache_size \<Longrightarrow>
   room_cache (run s ops) r = last_n cache_size (room_cache s r @ published r ops)"
proof (induction ops arbitrary: s)
  case Nil
  then show ?case by (simp add: run_Nil last_n_le)
next
  case (Cons x ops)
  have "room_cache (run (step s x) ops) r
          = last_n cache_size (room_cache (step s x) r @ published r ops)"
    by (rule Cons.IH) (rule step_cache_bound [OF Cons.prems])
  then show ?case
    by (cases x) (simp_all add: run_Cons step_cache last_n_trim last_n_le [OF Cons.prems] del: step.simps)
qed

section \<open>The invariant holds after every sequence of calls\<close>

lemma buffer_invD:
  assumes "buffer_inv s"
  shows "f \<in> room_waiters s r \<Longrightarrow> f < next_fut s"
    and "f \<in> room_waiters s r \<Longrightarrow> results s f = []"
    and "f \<in> room_waiters s r \<Longrightarrow> f \<in> room_waiters s r' \<Longrightarrow> r = r'"
    and "length (results s f) \<le> 1"
    and "next_fut s \<le> f \<Longrightarrow> results s f = []"
proof -
  from assms have 1: "\<forall>r f. f \<in> room_waiters s r \<longrightarrow> f < next_fut s \<and> results s f = []"
    and 2: "\<forall>r r' f. f \<in> room_waiters s r \<and> f \<in> room_waiters s r' \<longrightarrow> r = r'"
    and 3: "\<forall>f. length (results s f) \<le> 1"
    and 4: "\<forall>f. next_fut s \<le> f \<longrightarrow> results s f = []"
    unfolding buffer_inv_def by simp_all
  from 1 show "f \<in> room_waiters s r \<Longrightarrow> f < next_fut s" by blast
  from 1 show "f \<in> room_waiters s r \<Longrightarrow> results s f = []" by blast
  from 2 show "f \<in> room_waiters s r \<Longrightarrow> f \<in> room_waiters s r' \<Longrightarrow> r = r'" by blast
  from 3 show "length (results s f) \<le> 1" by blast
  from 4 show "next_fut s \<le> f \<Longrightarrow> results s f = []" by blast
qed

lemma buffer_invI:
  assumes "\<And>r f. f \<in> room_waiters s r \<Longrightarrow> f < next_fut s"
    and "\<And>r f. f \<in> room_waiters s r \<Longrightarrow> results s f = []"
    and "\<And>r r' f. f \<in> room_waiters s r \<Longrightarrow> f \<in> room_waiters s r' \<Longrightarrow> r = r'"
    and "\<And>f. length (results s f) \<le> 1"
    and "\<And>f. next_fut s \<le> f \<Longrightarrow> results s f = []"
  shows "buffer_inv s"
  unfolding buffer_inv_def using assms by blast

lemma buffer_inv_init: "buffer_inv init"
  by (simp add: buffer_inv_def init_def room_waiters_def)

lemma buffer_inv_fresh: "buffer_inv s \<Longrightarrow> next_fut s \<notin> room_waiters s r"
  using buffer_invD(1) [of s "next_fut s" r] by auto

lemma buffer_inv_register:
  assumes i: "buffer_inv s"
  shows "buffer_inv (s\<lparr>room := (room s)(r \<mapsto> \<lparr>cache = c,
                                   waiters = insert (next_fut s) (room_waiters s r)\<rparr>),
            next_fut := Suc (next_fut s)\<rparr>)" (is "buffer_inv ?s'")
proof (rule buffer_invI)
  have w: "\<And>r'. room_waiters ?s' r' =
      (if r' = r then insert (next_fut s) (room_waiters s r) else room_waiters s r')"
    by (simp add: room_waiters_def)
  fix r1 r2 f
  show "f \<in> room_waiters ?s' r1 \<Longrightarrow> f < next_fut ?s'"
    using buffer_invD(1) [OF i, of f] by (auto simp add: w less_Suc_eq split: if_splits)
  show "f \<in> room_waiters ?s' r1 \<Longrightarrow> results ?s' f = []"
    using buffer_invD(2) [OF i, of f] buffer_invD(5) [OF i, of f] by (auto simp add: w split: if_splits)
  show "f \<in> room_waiters ?s' r1 \<Longrightarrow> f \<in> room_waiters ?s' r2 \<Longrightarrow> r1 = r2"
    using buffer_invD(3) [OF i, of f r1 r2] buffer_inv_fresh [OF i] by (auto simp add: w split: if_splits)
  show "length (results ?s' f) \<le> 1"
    using buffer_invD(4) [OF i, of f] by simp
  show "next_fut ?s' \<le> f \<Longrightarrow> results ?s' f = []"
    using buffer_invD(5) [OF i, of f] by simp
qed

lemma buffer_inv_replayed:
  assumes i: "buffer_inv s"
  shows "buffer_inv (s\<lparr>results := (results s)(next_fut s := results s (next_fut s) @ [ms]),
            next_fut := Suc (next_fut s)\<rparr>)" (is "buffer_inv ?s'")
proof (rule buffer_invI)
  have w: "\<And>r'. room_waiters ?s' r' = room_waiters s r'"
    by (simp add: room_waiters_def)
  fix r1 r2 f
  show "f \<in> room_waiters ?s' r1 \<Longrightarrow> f < next_fut ?s'"
    using buffer_invD(1) [OF i, of f r1] by (simp add: w)
  show "f \<in> room_waiters ?s' r1 \<Longrightarrow> results ?s' f = []"
    using buffer_invD(2) [OF i, of f r1] buffer_inv_fresh [OF i, of r1] by (auto simp add: w)
  show "f \<in> room_waiters ?s' r1 \<Longrightarrow> f \<in> room_waiters ?s' r2 \<Longrightarrow> r1 = r2"
    using buffer_invD(3) [OF i, of f r1 r2] by (simp add: w)
  show "length (results ?s' f) \<le> 1"
    using buffer_invD(4) [OF i, of f] buffer_invD(5) [OF i, of "next_fut s"] by simp
  show "next_fut ?s' \<le> f \<Longrightarrow> results ?s' f = []"
    using buffer_invD(5) [OF i, of f] by simp
qed

lemma buffer_inv_cancelled:
  assumes i: "buffer_inv s" and f: "f \<in> room_waiters s r"
  shows "buffer_inv (s\<lparr>room := (room s)(r \<mapsto> \<lparr>cache = c, waiters = room_waiters s r - {f}\<rparr>),
                  results := (results s)(f := results s f @ [[]])\<rparr>)" (is "buffer_inv ?s'")
proof (rule buffer_invI)
  have w: "\<And>r'. room_waiters ?s' r' =
      (if r' = r then room_waiters s r - {f} else room_waiters s r')"
    by (simp add: room_waiters_def)
  fix r1 r2 g
  show "g \<in> room_waiters ?s' r1 \<Longrightarrow> g < next_fut ?s'"
    using buffer_invD(1) [OF i, of g] by (auto simp add: w split: if_splits)
  show "g \<in> room_waiters ?s' r1 \<Longrightarrow> results ?s' g = []"
    using buffer_invD(2) [OF i, of g] buffer_invD(3) [OF i f, of r1] by (auto simp add: w split: if_splits)
  show "g \<in> room_waiters ?s' r1 \<Longrightarrow> g \<in> room_waiters ?s' r2 \<Longrightarrow> r1 = r2"
    using buffer_invD(3) [OF i, of g r1 r2] by (auto simp add: w split: if_splits)
  show "length (results ?s' g) \<le> 1"
    using buffer_invD(4) [OF i, of g] buffer_invD(2) [OF i f] by simp
  show "next_fut ?s' \<le> g \<Longrightarrow> results ?s' g = []"
    using buffer_invD(5) [OF i, of g] buffer_invD(1) [OF i f] by auto
qed

lemma buffer_inv_published:
  assumes i: "buffer_inv s"
  shows "buffer_inv (s\<lparr>room := (room s)(r \<mapsto> \<lparr>cache = c, waiters = {}\<rparr>),
            results := (\<lambda>f. if f \<in> room_waiters s r then results s f @ [ms]
                            else results s f)\<rparr>)" (is "buffer_inv ?s'")
proof (rule buffer_invI)
  have w: "\<And>r'. room_waiters ?s' r' = (if r' = r then {} else room_waiters s r')"
    by (simp add: room_waiters_def)
  fix r1 r2 g
  show "g \<in> room_waiters ?s' r1 \<Longrightarrow> g < next_fut ?s'"
    using buffer_invD(1) [OF i, of g] by (auto simp add: w split: if_splits)
  show "g \<in> room_waiters ?s' r1 \<Longrightarrow> results ?s' g = []"
    using buffer_invD(2) [OF i, of g] buffer_invD(3) [OF i, of g r r1] by (auto simp add: w split: if_splits)
  show "g \<in> room_waiters ?s' r1 \<Longrightarrow> g \<in> room_waiters ?s' r2 \<Longrightarrow> r1 = r2"
    using buffer_invD(3) [OF i, of g r1 r2] by (auto simp add: w split: if_splits)
  show "length (results ?s' g) \<le> 1"
    using buffer_invD(4) [OF i, of g] buffer_invD(2) [OF i, of g r] by simp
  show "next_fut ?s' \<le> g \<Longrightarrow> results ?s' g = []"
    using buffer_invD(5) [OF i, of g] buffer_invD(1) [OF i, of g r] by auto
qed

lemma buffer_inv_created: "buffer_inv s \<Longrightarrow> buffer_inv (snd (create_new_room s r))"
  by (simp add: buffer_inv_def create_new_room_frame)

lemma buffer_inv_step: "buffer_inv s \<Longrightarrow> buffer_inv (step s x)"
proof (cases x)
  case (Wait r cursor)
  assume i: "buffer_inv s"
  show ?thesis
  proof (cases rule: wait_cases [of s r cursor])
    case register
    with Wait buffer_inv_register [OF i] show ?thesis by simp
  next
    case (replay c n)
    with Wait buffer_inv_replayed [OF i] show ?thesis by simp
  qed
next
  case (Cancel r f)
  assume i: "buffer_inv s"
  with Cancel buffer_inv_cancelled [OF i] show ?thesis
    by (simp add: cancel_wait_eq)
next
  case (New r ms)
  assume i: "buffer_inv s"
  with New buffer_inv_published [OF i] show ?thesis
    by (simp add: new_messages_eq)
next
  case (Create r)
  assume i: "buffer_inv s"
  with Create show ?thesis
    by (simp add: buffer_inv_created)
qed

lemma buffer_inv_run: "buffer_inv s \<Longrightarrow> buffer_inv (run s ops)"
  unfolding run_def by (induction ops arbitrary: s) (simp_all add: buffer_inv_step)


lemma buffer_inv_reachable: "buffer_inv (run init ops)"
  by (rule buffer_inv_run [OF buffer_inv_init])

section \<open>Waiting and resolved futures\<close>

text \<open>A waiter stays in its room as long as no call targets it.\<close>

lemma step_keeps_waiter:
  assumes f: "f \<in> room_waiters s r" and x: "\<not> targets r f x"
  shows "f \<in> room_waiters (step s x) r"
proof (cases x)
  case (Wait r' cursor)
  then show ?thesis
    using f by (cases rule: wait_cases [of s r' cursor]) auto
next
  case (Cancel r' g)
  then show ?thesis
    using f x by (auto simp add: cancel_wait_eq)
next
  case (New r' ms)
  then show ?thesis
    using f x by (simp add: new_messages_eq)
next
  case (Create r')
  then show ?thesis
    using f by simp
qed

lemma run_keeps_waiter:
  assumes "f \<in> room_waiters s r" and "\<forall>x \<in> set ops. \<not> targets r f x"
  shows "f \<in> room_waiters (run s ops) r"
  using assms
proof (induction ops arbitrary: s)
  case Nil
  then show ?case by (simp add: run_Nil)
next
  case (Cons x ops)
  then show ?case
    by (simp add: run_Cons step_keeps_waiter del: step.simps)
qed

text \<open>A future that has its result keeps it, whatever is called afterwards.\<close>

lemma step_resolved_stable:
  assumes i: "buffer_inv s" and f: "results s f \<noteq> []"
  shows "results (step s x) f = results s f"
proof (cases x)
  case (Wait r cursor)
  have "f \<noteq> next_fut s"
    using buffer_invD(5) [OF i, of f] f by auto
  with Wait show ?thesis
    by (cases rule: wait_cases [of s r cursor]) simp_all
next
  case (Cancel r g)
  have "g \<in> room_waiters s r \<Longrightarrow> g \<noteq> f"
    using buffer_invD(2) [OF i, of g r] f by auto
  with Cancel show ?thesis
    by (auto simp add: cancel_wait_eq)
next
  case (New r ms)
  have "f \<notin> room_waiters s r"
    using buffer_invD(2) [OF i, of f r] f by auto
  with New show ?thesis
    by (simp add: new_messages_eq)
next
  case (Create r)
  then show ?thesis
    by (simp add: create_new_room_frame)
qed

lemma run_resolved_stable:
  assumes "buffer_inv s" and "results s f \<noteq> []"
  shows "results (run s ops) f = results s f"
  using assms
proof (induction ops arbitrary: s)
  case Nil
  then show ?case by (simp add: run_Nil)
next
  case (Cons x ops)
  have "results (run (step s x) ops) f = results (step s x) f"
    by (rule Cons.IH [OF buffer_inv_step [OF Cons.prems(1)]])
       (simp add: step_resolved_stable [OF Cons.prems] Cons.prems(2) del: step.simps)
  then show ?case
    by (simp add: run_Cons step_resolved_stable [OF Cons.prems] del: step.simps)
qed

section \<open>Room creation\<close>

text \<open>
  Claim C8. \<open>create_new_room\<close> never fails and is idempotent. It returns \<open>True\<close>. When the
  room is absent it stores a room with an empty cache and no waiter; when the room
  exists the buffer is unchanged, so its cache and waiters are kept. A second call
  changes nothing. Other rooms and the futures are never touched.
\<close>

theorem create_new_room_idempotent:
  "fst (create_new_room s r) = True
   \<and> (room s r = None \<longrightarrow>
        room (snd (create_new_room s r)) r = Some \<lparr>cache = [], waiters = {}\<rparr>)
   \<and> (room s r \<noteq> None \<longrightarrow> snd (create_new_room s r) = s)
   \<and> create_new_room (snd (create_new_room s r)) r = create_new_room s r
   \<and> snd (create_new_room (snd (create_new_room s r)) r) = snd (create_new_room s r)
   \<and> (\<forall>r'. r' \<noteq> r \<longrightarrow> room (snd (create_new_room s r)) r' = room s r')
   \<and> results (snd (create_new_room s r)) = results s
   \<and> next_fut (snd (create_new_room s r)) = next_fut s"
  by (simp add: create_new_room_def)

text \<open>
  The theorem at the empty buffer and the room \<open>lobby\<close>: the first call creates the
  empty room, the second finds it and keeps it.
\<close>

theorem create_new_room_idempotent_witness:
  "room (init :: string state) ''lobby'' = None
   \<and> room (snd (create_new_room (init :: string state) ''lobby'')) ''lobby''
       = Some \<lparr>cache = [], waiters = {}\<rparr>
   \<and> room (snd (create_new_room (init :: string state) ''lobby'')) ''lobby'' \<noteq> None
   \<and> snd (create_new_room (snd (create_new_room (init :: string state) ''lobby'')) ''lobby'')
       = snd (create_new_room init ''lobby'')"
  using create_new_room_idempotent [of "init :: string state" "''lobby''"]
        create_new_room_idempotent [of "snd (create_new_room (init :: string state) ''lobby'')" "''lobby''"]
  by (simp add: init_def)

section \<open>Publishing\<close>

text \<open>
  Claim C1. From the empty buffer, after any sequence of calls of the four methods
  (so after each call of any sequence of publications), the cache of every room holds at
  most \<open>cache_size = 200\<close> messages, and it is the slice of the last 200 of all the
  messages published to that room, in the order of their arrival: the oldest are the
  ones dropped.
\<close>

theorem cache_holds_last_published:
  "cache_size = 200
   \<and> length (room_cache (run init ops) r) \<le> 200
   \<and> room_cache (run init ops) r = last_n cache_size (published r ops)
   \<and> room_cache (run init ops) r
       = drop (length (published r ops) - 200) (published r ops)"
proof -
  have 0: "length (room_cache (init :: 'a state) r) \<le> cache_size"
    by (simp add: init_def room_cache_def)
  have "room_cache (run init ops) r = last_n cache_size (published r ops)"
    using run_cache [OF 0, of ops] by (simp add: init_def room_cache_def)
  then show ?thesis
    by (simp add: last_n_def cache_size_def)
qed

text \<open>
  Claim C2. \<open>new_messages\<close> never fails. It makes exactly one \<open>set_result\<close> call, with
  the batch itself, on every future that waits in the room, and none on any other
  future; afterwards the room has no waiter, and the waiters of the other rooms are
  as before.
\<close>

theorem new_messages_resolves_waiters:
  "case new_messages s r ms of
     Inl e \<Rightarrow> False
   | Inr s' \<Rightarrow>
       (\<forall>f \<in> room_waiters s r. results s' f = results s f @ [ms])
     \<and> (\<forall>f. f \<notin> room_waiters s r \<longrightarrow> results s' f = results s f)
     \<and> room_waiters s' r = {}
     \<and> (\<forall>r'. r' \<noteq> r \<longrightarrow> room_waiters s' r' = room_waiters s r')"
  by (simp add: new_messages_eq)

text \<open>
  Two clients wait in the room \<open>lobby\<close>; one publication resolves both with the batch.
\<close>

theorem new_messages_resolves_waiters_witness:
  "room_waiters (run init [Wait ''lobby'' None, Wait ''lobby'' None]) ''lobby'' = {0, 1}
   \<and> (case new_messages (run init [Wait ''lobby'' None, Wait ''lobby'' None]) ''lobby'' [m1] of
         Inl e \<Rightarrow> False
       | Inr s' \<Rightarrow> results s' 0 = [[m1]] \<and> results s' 1 = [[m1]] \<and> results s' 2 = []
                  \<and> room_waiters s' ''lobby'' = {})"
  using new_messages_resolves_waiters [of "run init [Wait ''lobby'' None, Wait ''lobby'' None]" "''lobby''" "[m1]"]
  by (simp add: buffer_eval insert_commute)

section \<open>Subscribing\<close>




text \<open>
  Claim C5, as the code has it. The claim speaks of every cursor id that does not
  occur in the cache. The empty string is such a cursor, and the guard \<open>if cursor:\<close>
  sends it to the registration of a waiter: nothing is replayed.
\<close>

theorem empty_cursor_counterexample:
  "room_cache (run init [New ''lobby'' [m1]]) ''lobby'' = [m1]
   \<and> [] \<notin> id_msg ` set [m1]
   \<and> (case wait_for_messages (run init [New ''lobby'' [m1]]) ''lobby'' (Some []) of
         Inl e \<Rightarrow> False
       | Inr (f, s') \<Rightarrow> f = 0 \<and> results s' f = [] \<and> f \<in> room_waiters s' ''lobby'')"
  by (simp add: buffer_eval m1_def)

text \<open>
  Claim C5, amended: for a non-empty cache and a non-empty cursor that is the id of no
  cached message, \<open>wait_for_messages\<close> returns a new future whose single result is the
  whole cache; no other future gets a result, the rooms are unchanged and the new
  future waits in no room.
\<close>

theorem expired_cursor_replays_everything:
  assumes h: "room_cache (run init ops) r = h" "h \<noteq> []"
    and c: "c \<noteq> []" "c \<notin> id_msg ` set h"
  shows "case wait_for_messages (run init ops) r (Some c) of
           Inl e \<Rightarrow> False
         | Inr (f, s') \<Rightarrow>
             f = next_fut (run init ops)
           \<and> results s' f = [h]
           \<and> (\<forall>g. g \<noteq> f \<longrightarrow> results s' g = results (run init ops) g)
           \<and> room s' = room (run init ops)
           \<and> (\<forall>r'. f \<notin> room_waiters s' r')"
proof -
  let ?s = "run init ops"
  have n: "count_new (rev (room_cache ?s r)) c 0 = length h"
    using count_new_missing [OF c(2)] h(1) by simp
  have n0: "length h \<noteq> 0"
    using h(2) by simp
  have slice: "last_n (length h) (room_cache ?s r) = h"
    using last_n_suffix [OF h(2), of "[]"] h(1) by simp
  have fresh: "results ?s (next_fut ?s) = []"
    by (rule buffer_invD(5) [OF buffer_inv_reachable]) simp
  have nowait: "\<And>r'. next_fut ?s \<notin> room_waiters ?s r'"
    by (rule buffer_inv_fresh [OF buffer_inv_reachable])
  show ?thesis
    using wait_replay [OF c(1) n n0] slice fresh nowait
    by (simp add: room_waiters_def)
qed

text \<open>The cache of \<open>lobby\<close> is \<open>[m1, m2]\<close>; the unknown cursor \<open>m0\<close> replays both.\<close>

theorem expired_cursor_replays_everything_witness:
  "room_cache (run init [New ''lobby'' [m1, m2]]) ''lobby'' = [m1, m2] \<and> [m1, m2] \<noteq> []
   \<and> ''m0'' \<noteq> [] \<and> ''m0'' \<notin> id_msg ` set [m1, m2]
   \<and> (case wait_for_messages (run init [New ''lobby'' [m1, m2]]) ''lobby'' (Some ''m0'') of
         Inl e \<Rightarrow> False
       | Inr (f, s') \<Rightarrow> f = 0 \<and> results s' f = [[m1, m2]]
                      \<and> room s' = room (run init [New ''lobby'' [m1, m2]]))"
proof -
  have a: "room_cache (run init [New ''lobby'' [m1, m2]]) ''lobby'' = [m1, m2]"
    by (simp add: buffer_eval)
  have b: "[m1, m2] \<noteq> []" "''m0'' \<noteq> []" "''m0'' \<notin> id_msg ` set [m1, m2]"
    by (simp_all add: m1_def m2_def)
  have n: "next_fut (run init [New ''lobby'' [m1, m2]] :: string state) = 0"
    by (simp add: buffer_eval)
  show ?thesis
    using expired_cursor_replays_everything [OF a b] a b n
    by (auto split: sum.splits)
qed

text \<open>
  Claim C7. Without a cursor, or with the id of the newest cached message as cursor,
  \<open>wait_for_messages\<close> in a buffer reached from the empty one returns a new future
  that has no result and adds it to the waiters of the room. Through any later calls
  none of which is a publication to that room or the cancellation of that future in
  that room, the future keeps waiting in the room, without a result.
\<close>

theorem no_replay_registers_waiter:
  assumes cursor: "cursor = None
      \<or> (room_cache (run init ops) r \<noteq> []
          \<and> cursor = Some (id_msg (last (room_cache (run init ops) r))))"
  shows "case wait_for_messages (run init ops) r cursor of
           Inl e \<Rightarrow> False
         | Inr (f, s') \<Rightarrow>
             f = next_fut (run init ops)
           \<and> room_waiters s' r = insert f (room_waiters (run init ops) r)
           \<and> f \<notin> room_waiters (run init ops) r
           \<and> results s' f = []
           \<and> (\<forall>ops'. (\<forall>x \<in> set ops'. \<not> targets r f x) \<longrightarrow>
                  results (run s' ops') f = [] \<and> f \<in> room_waiters (run s' ops') r)"
proof -
  let ?s = "run init ops"
  let ?f = "next_fut ?s"
  let ?s' = "?s\<lparr>room := (room ?s)(r \<mapsto> \<lparr>cache = room_cache ?s r,
                                   waiters = insert ?f (room_waiters ?s r)\<rparr>),
            next_fut := Suc ?f\<rparr>"
  have "cursor = None \<or> cursor = Some []
           \<or> (\<exists>c. cursor = Some c \<and> count_new (rev (room_cache ?s r)) c 0 = 0)"
    using cursor count_new_newest [of "room_cache ?s r"] by auto
  then have w: "wait_for_messages ?s r cursor = Inr (?f, ?s')"
    by (rule wait_register)
  have i: "buffer_inv ?s"
    by (rule buffer_inv_reachable)
  have s': "?s' = run init (ops @ [Wait r cursor])"
    using w by (simp add: run_append run_Cons run_Nil)
  have in': "?f \<in> room_waiters ?s' r"
    by simp
  have later: "results (run ?s' ops') ?f = [] \<and> ?f \<in> room_waiters (run ?s' ops') r"
    if "\<forall>x \<in> set ops'. \<not> targets r ?f x" for ops'
  proof -
    have a: "?f \<in> room_waiters (run ?s' ops') r"
      using in' that by (rule run_keeps_waiter)
    have "buffer_inv (run ?s' ops')"
      unfolding s' by (rule buffer_inv_run [OF buffer_inv_reachable])
    from buffer_invD(2) [OF this a] a show ?thesis by simp
  qed
  have "results ?s' ?f = []"
    using buffer_invD(5) [OF i, of ?f] by simp
  moreover have "?f \<notin> room_waiters ?s r"
    by (rule buffer_inv_fresh [OF i])
  moreover have "room_waiters ?s' r = insert ?f (room_waiters ?s r)"
    by simp
  ultimately show ?thesis
    using later unfolding w by simp
qed

text \<open>
  A client that has seen \<open>m2\<close>, the newest message of \<open>lobby\<close>, waits; a publication
  to another room, a failing cancellation there and another subscription leave it
  waiting.
\<close>

theorem no_replay_registers_waiter_witness:
  "room_cache (run init [New ''lobby'' [m1, m2]]) ''lobby'' \<noteq> []
   \<and> id_msg (last (room_cache (run init [New ''lobby'' [m1, m2]]) ''lobby'')) = ''m2''
   \<and> \<not> targets ''lobby'' 0 (New ''hall'' [m3]) \<and> \<not> targets ''lobby'' 0 (Cancel ''hall'' 0)
   \<and> \<not> targets ''lobby'' 0 (Wait ''lobby'' None)
   \<and> (case wait_for_messages (run init [New ''lobby'' [m1, m2]]) ''lobby'' (Some ''m2'') of
         Inl e \<Rightarrow> False
       | Inr (f, s') \<Rightarrow>
           f = 0 \<and> results s' f = [] \<and> f \<in> room_waiters s' ''lobby''
         \<and> results (run s' [New ''hall'' [m3], Cancel ''hall'' 0, Wait ''lobby'' None]) f = []
         \<and> f \<in> room_waiters (run s' [New ''hall'' [m3], Cancel ''hall'' 0, Wait ''lobby'' None])
                 ''lobby'')"
proof -
  have a: "room_cache (run init [New ''lobby'' [m1, m2]]) ''lobby'' \<noteq> []"
    and b: "id_msg (last (room_cache (run init [New ''lobby'' [m1, m2]]) ''lobby'')) = ''m2''"
    by (simp_all add: buffer_eval m2_def)
  have n: "next_fut (run init [New ''lobby'' [m1, m2]] :: string state) = 0"
    by (simp add: buffer_eval)
  have t: "\<forall>x \<in> set [New ''hall'' [m3], Cancel ''hall'' 0, Wait ''lobby'' None].
             \<not> targets ''lobby'' (0::nat) x"
    by simp
  have c: "Some ''m2'' = None
      \<or> (room_cache (run init [New ''lobby'' [m1, m2]]) ''lobby'' \<noteq> []
          \<and> Some ''m2'' = Some (id_msg (last (room_cache (run init [New ''lobby'' [m1, m2]]) ''lobby''))))"
    using a b by simp
  show ?thesis
    using no_replay_registers_waiter [OF c] a b n t
    by (auto split: sum.splits)
qed

text \<open>
  Claim C10. The cursor \<open>""\<close> is treated as no cursor: \<open>wait_for_messages\<close> returns
  the same result for both. In any buffer, whatever the cache of the room holds, the
  call registers the new future as a waiter of the room, calls \<open>set_result\<close> on no
  future, and leaves the cache as it is.
\<close>

theorem empty_cursor_is_absent:
  "wait_for_messages s r (Some []) = wait_for_messages s r None
   \<and> (case wait_for_messages s r (Some []) of
         Inl e \<Rightarrow> False
       | Inr (f, s') \<Rightarrow>
           f = next_fut s \<and> room_waiters s' r = insert f (room_waiters s r)
         \<and> results s' = results s \<and> room_cache s' r = room_cache s r)"
  by (simp add: wait_register)

section \<open>Cancelling\<close>

text \<open>
  Claim C4, as the code has it. \<open>cancel_wait\<close> does not always succeed: when the future
  is not in the waiter set of the room, \<open>set.remove\<close> raises \<open>KeyError\<close>. Here the
  future 0 waited in \<open>lobby\<close> and a publication has resolved and removed it; the
  cancellation that follows raises. So does a cancellation in a room that does not
  exist.
\<close>

theorem cancel_wait_after_publish_raises:
  "room_waiters (run init [Wait ''lobby'' None, New ''lobby'' [m1]]) ''lobby'' = {}
   \<and> results (run init [Wait ''lobby'' None, New ''lobby'' [m1]] :: string state) 0 = [[m1]]
   \<and> cancel_wait (run init [Wait ''lobby'' None, New ''lobby'' [m1]]) ''lobby'' 0 = Inl KeyError
   \<and> cancel_wait (init :: string state) ''lobby'' 0 = Inl KeyError"
  by (simp add: buffer_eval)

text \<open>
  Claim C4, amended. When the future is in the waiter set of the room, \<open>cancel_wait\<close>
  succeeds: it removes the future from that set, calls \<open>set_result([])\<close> on it once, and
  changes no other future, no other room, and not the cache. When the future is not in
  the waiter set of the room (never registered there, already resolved by a
  publication, or already cancelled), or the room does not exist, it raises
  \<open>KeyError\<close>, and nothing has changed.
\<close>

theorem cancel_wait_registered:
  "(f \<in> room_waiters s r \<longrightarrow>
      (case cancel_wait s r f of
         Inl e \<Rightarrow> False
       | Inr s' \<Rightarrow>
           room_waiters s' r = room_waiters s r - {f}
         \<and> results s' f = results s f @ [[]]
         \<and> (\<forall>g. g \<noteq> f \<longrightarrow> results s' g = results s g)
         \<and> (\<forall>r'. r' \<noteq> r \<longrightarrow> room s' r' = room s r')
         \<and> room_cache s' r = room_cache s r
         \<and> next_fut s' = next_fut s))
   \<and> (f \<notin> room_waiters s r \<longrightarrow> cancel_wait s r f = Inl KeyError)"
  by (simp add: cancel_wait_eq)

text \<open>The future 0 waits in \<open>lobby\<close> and is cancelled; the future 1 does not exist.\<close>

theorem cancel_wait_registered_witness:
  "(0::nat) \<in> room_waiters (run init [Wait ''lobby'' None]) ''lobby''
   \<and> (case cancel_wait (run init [Wait ''lobby'' None]) ''lobby'' 0 of
         Inl e \<Rightarrow> False
       | Inr s' \<Rightarrow> room_waiters s' ''lobby'' = {} \<and> results s' 0 = [[]])
   \<and> (1::nat) \<notin> room_waiters (run init [Wait ''lobby'' None]) ''lobby''
   \<and> cancel_wait (run init [Wait ''lobby'' None]) ''lobby'' 1 = Inl KeyError"
  using cancel_wait_registered [of 0 "run init [Wait ''lobby'' None]" "''lobby''"]
        cancel_wait_registered [of 1 "run init [Wait ''lobby'' None]" "''lobby''"]
  by (simp add: buffer_eval)

section \<open>No future is resolved twice\<close>

text \<open>
  Claim C6. In every buffer reached from the empty one by calls of the four methods, no
  future has had more than one \<open>set_result\<close> call. A future that has its result waits in
  no room, and its result stays what it is through any further calls. In particular:
  a subscription without cursor registers a future; its cancellation succeeds, takes
  it out of the waiter set and resolves it with the empty list; a publication to the
  same room then succeeds and leaves that single result as it is.
\<close>

theorem resolved_at_most_once:
  "length (results (run init ops) f) \<le> 1
   \<and> (results (run init ops) f \<noteq> [] \<longrightarrow>
        f \<notin> room_waiters (run init ops) r
      \<and> results (run (run init ops) ops') f = results (run init ops) f)
   \<and> (case wait_for_messages (run init ops) r None of
         Inl e \<Rightarrow> False
       | Inr (h, s1) \<Rightarrow>
           h \<in> room_waiters s1 r \<and> results s1 h = []
         \<and> (case cancel_wait s1 r h of
               Inl e \<Rightarrow> False
             | Inr s2 \<Rightarrow>
                 h \<notin> room_waiters s2 r \<and> results s2 h = [[]]
               \<and> (case new_messages s2 r ms of
                     Inl e \<Rightarrow> False
                   | Inr s3 \<Rightarrow> results s3 h = [[]])))"
proof -
  let ?s = "run init ops"
  have i: "buffer_inv ?s"
    by (rule buffer_inv_reachable)
  have 1: "length (results ?s f) \<le> 1"
    by (rule buffer_invD(4) [OF i])
  have 2: "f \<notin> room_waiters ?s r" if "results ?s f \<noteq> []"
    using buffer_invD(2) [OF i, of f r] that by auto
  have 3: "results (run ?s ops') f = results ?s f" if "results ?s f \<noteq> []"
    using i that by (rule run_resolved_stable)
  have fresh: "results ?s (next_fut ?s) = []"
    by (rule buffer_invD(5) [OF i]) simp
  have 4: "case wait_for_messages ?s r None of
         Inl e \<Rightarrow> False
       | Inr (h, s1) \<Rightarrow>
           h \<in> room_waiters s1 r \<and> results s1 h = []
         \<and> (case cancel_wait s1 r h of
               Inl e \<Rightarrow> False
             | Inr s2 \<Rightarrow>
                 h \<notin> room_waiters s2 r \<and> results s2 h = [[]]
               \<and> (case new_messages s2 r ms of
                     Inl e \<Rightarrow> False
                   | Inr s3 \<Rightarrow> results s3 h = [[]]))"
    using fresh by (simp add: wait_register cancel_wait_eq new_messages_eq room_waiters_def)
  from 1 2 3 4 show ?thesis by blast
qed

text \<open>
  A publication resolves the waiter 0 with \<open>[m1]\<close>; a cancellation and a second
  publication change nothing of it.
\<close>

theorem resolved_at_most_once_witness:
  "results (run init [Wait ''lobby'' None, New ''lobby'' [m1]] :: string state) 0 \<noteq> []
   \<and> results (run init [Wait ''lobby'' None, New ''lobby'' [m1]] :: string state) 0 = [[m1]]
   \<and> (0::nat) \<notin> room_waiters (run init [Wait ''lobby'' None, New ''lobby'' [m1]]) ''lobby''
   \<and> results (run (run init [Wait ''lobby'' None, New ''lobby'' [m1]] :: string state)
                [Cancel ''lobby'' 0, New ''lobby'' [m2]]) 0 = [[m1]]"
proof -
  have a: "results (run init [Wait ''lobby'' None, New ''lobby'' [m1]] :: string state) 0 = [[m1]]"
    by (simp add: buffer_eval)
  then have b: "results (run init [Wait ''lobby'' None, New ''lobby'' [m1]] :: string state) 0 \<noteq> []"
    by simp
  show ?thesis
    using resolved_at_most_once [of "[Wait ''lobby'' None, New ''lobby'' [m1]]" 0 "''lobby''"
        "[Cancel ''lobby'' 0, New ''lobby'' [m2]]" "[]"] a b
    by simp
qed

section \<open>The order of the statements of one publication\<close>

text \<open>
  Claim C9, as the code has it. \<open>new_messages\<close> runs the loop over the waiters before
  it extends the cache. With one waiter in \<open>lobby\<close> and the batch \<open>[m1]\<close>: in the state
  after the loop the waiter has its result and the cache is still empty; the batch is
  in the cache two statements later.
\<close>

theorem append_after_resolve_counterexample:
  "room_waiters (run init [Wait ''lobby'' None]) ''lobby'' = {0}
   \<and> (case new_messages_trace (run init [Wait ''lobby'' None]) ''lobby'' [m1] ! 1 of
         Inl e \<Rightarrow> False
       | Inr s1 \<Rightarrow> results s1 0 = [[m1]] \<and> room_cache s1 ''lobby'' = [])
   \<and> (case new_messages_trace (run init [Wait ''lobby'' None]) ''lobby'' [m1] ! 3 of
         Inl e \<Rightarrow> False
       | Inr s3 \<Rightarrow> results s3 0 = [[m1]] \<and> room_cache s3 ''lobby'' = [m1])"
  by (simp add: buffer_eval new_messages_trace_def)

text \<open>
  Claim C9, amended. One call of \<open>new_messages\<close> never fails and passes through five
  states. After the loop every waiter of the room has received the batch and the
  cache of the room is still the one from before the call. Then the waiter set is
  emptied. Only then the batch is appended to the cache, and last the cache is cut to
  its last \<open>cache_size\<close> messages. The results of the futures do not change after the
  loop.
\<close>

theorem resolve_then_append:
  "\<exists>s0 s1 s2 s3 s4.
     new_messages_trace s r ms = [Inr s0, Inr s1, Inr s2, Inr s3, Inr s4]
   \<and> new_messages s r ms = Inr s4
   \<and> s0 = snd (create_new_room s r)
   \<and> (\<forall>f \<in> room_waiters s r. results s1 f = results s f @ [ms])
   \<and> (\<forall>f. f \<notin> room_waiters s r \<longrightarrow> results s1 f = results s f)
   \<and> room s1 = room s0 \<and> room_cache s1 r = room_cache s r
   \<and> results s2 = results s1 \<and> room_waiters s2 r = {} \<and> room_cache s2 r = room_cache s r
   \<and> results s3 = results s1 \<and> room_waiters s3 r = {} \<and> room_cache s3 r = room_cache s r @ ms
   \<and> results s4 = results s1 \<and> room_waiters s4 r = {}
   \<and> room_cache s4 r = last_n cache_size (room_cache s r @ ms)"
proof -
  obtain e where e: "room (snd (create_new_room s r)) r = Some e"
    using create_new_room_present [of s r] by auto
  have c: "cache e = room_cache s r" and w: "waiters e = room_waiters s r"
    using e create_cache [of s r r] create_waiters [of s r r]
    by (simp_all add: room_cache_def room_waiters_def)
  let ?s0 = "snd (create_new_room s r)"
  let ?s1 = "?s0\<lparr>results := (\<lambda>f. if f \<in> waiters e then results ?s0 f @ [ms]
                                  else results ?s0 f)\<rparr>"
  let ?s2 = "?s1\<lparr>room := (room ?s1)(r \<mapsto> e\<lparr>waiters := {}\<rparr>)\<rparr>"
  let ?s3 = "?s2\<lparr>room := (room ?s2)(r \<mapsto> e\<lparr>waiters := {}, cache := cache e @ ms\<rparr>)\<rparr>"
  let ?s4 = "if length (cache e @ ms) > cache_size
             then ?s3\<lparr>room := (room ?s3)(r \<mapsto> e\<lparr>waiters := {},
                                     cache := last_n cache_size (cache e @ ms)\<rparr>)\<rparr>
             else ?s3"
  have t: "new_messages_trace s r ms = [Inr ?s0, Inr ?s1, Inr ?s2, Inr ?s3, Inr ?s4]"
    and n: "new_messages s r ms = Inr ?s4"
    by (rule new_messages_steps [OF e refl refl refl refl refl])+
  have r1: "\<forall>f \<in> room_waiters s r. results ?s1 f = results s f @ [ms]"
    and r1': "\<forall>f. f \<notin> room_waiters s r \<longrightarrow> results ?s1 f = results s f"
    by (simp_all add: w create_new_room_frame)
  have s1: "room ?s1 = room ?s0" "room_cache ?s1 r = room_cache s r"
    by simp_all
  have s2: "results ?s2 = results ?s1" "room_waiters ?s2 r = {}" "room_cache ?s2 r = room_cache s r"
    by (simp_all add: c)
  have s3: "results ?s3 = results ?s1" "room_waiters ?s3 r = {}"
    "room_cache ?s3 r = room_cache s r @ ms"
    by (simp_all add: c)
  have s4: "results ?s4 = results ?s1" "room_waiters ?s4 r = {}"
    "room_cache ?s4 r = last_n cache_size (room_cache s r @ ms)"
    by (simp_all add: c last_n_le)
  show ?thesis
    using t n r1 r1' s1 s2 s3 s4 by blast
qed

text \<open>
  One client waits in \<open>lobby\<close>, one in \<open>hall\<close>; \<open>[m2]\<close> is published to \<open>lobby\<close>. After
  the loop the first has its result and the cache of \<open>lobby\<close> is empty; the message is
  in the cache from the fourth state on.
\<close>

theorem resolve_then_append_witness:
  "room_waiters (run init [Wait ''lobby'' None, Wait ''hall'' None]) ''lobby'' = {0}
   \<and> (0::nat) \<in> room_waiters (run init [Wait ''lobby'' None, Wait ''hall'' None]) ''lobby''
   \<and> (1::nat) \<notin> room_waiters (run init [Wait ''lobby'' None, Wait ''hall'' None]) ''lobby''
   \<and> (\<exists>s0 s1 s2 s3 s4.
         new_messages_trace (run init [Wait ''lobby'' None, Wait ''hall'' None]) ''lobby'' [m2]
           = [Inr s0, Inr s1, Inr s2, Inr s3, Inr s4]
       \<and> new_messages (run init [Wait ''lobby'' None, Wait ''hall'' None]) ''lobby'' [m2] = Inr s4
       \<and> results s1 0 = [[m2]] \<and> results s1 1 = [] \<and> room_cache s1 ''lobby'' = []
       \<and> room_waiters s1 ''lobby'' = {0}
       \<and> room_waiters s2 ''lobby'' = {} \<and> room_cache s2 ''lobby'' = []
       \<and> room_cache s3 ''lobby'' = [m2] \<and> results s3 0 = [[m2]]
       \<and> room_cache s4 ''lobby'' = [m2] \<and> results s4 0 = [[m2]])"
proof -
  let ?s = "run init [Wait ''lobby'' None, Wait ''hall'' None] :: string state"
  have w: "room_waiters ?s ''lobby'' = {0}"
    by (simp add: buffer_eval)
  have c: "room_cache ?s ''lobby'' = []"
    by (simp add: buffer_eval)
  have r: "results ?s 0 = []" "results ?s 1 = []"
    by (simp_all add: buffer_eval)
  from resolve_then_append [of ?s "''lobby''" "[m2]"]
  obtain s0 s1 s2 s3 s4 where
    t: "new_messages_trace ?s ''lobby'' [m2] = [Inr s0, Inr s1, Inr s2, Inr s3, Inr s4]"
      "new_messages ?s ''lobby'' [m2] = Inr s4"
    and s0: "s0 = snd (create_new_room ?s ''lobby'')"
    and s1: "\<forall>f \<in> room_waiters ?s ''lobby''. results s1 f = results ?s f @ [[m2]]"
      "\<forall>f. f \<notin> room_waiters ?s ''lobby'' \<longrightarrow> results s1 f = results ?s f"
      "room s1 = room s0" "room_cache s1 ''lobby'' = room_cache ?s ''lobby''"
    and s2: "results s2 = results s1" "room_waiters s2 ''lobby'' = {}"
      "room_cache s2 ''lobby'' = room_cache ?s ''lobby''"
    and s3: "results s3 = results s1" "room_waiters s3 ''lobby'' = {}"
      "room_cache s3 ''lobby'' = room_cache ?s ''lobby'' @ [m2]"
    and s4: "results s4 = results s1" "room_waiters s4 ''lobby'' = {}"
      "room_cache s4 ''lobby'' = last_n cache_size (room_cache ?s ''lobby'' @ [m2])"
    by blast
  have w1: "room_waiters s1 ''lobby'' = {0}"
    using s1(3) s0 w by (simp add: room_waiters_def create_new_room_def split: if_splits)
  have "results s1 0 = [[m2]]" "results s1 1 = []"
    using s1(1,2) w r by simp_all
  moreover have "room_cache s4 ''lobby'' = [m2]"
    using s4(3) c by (simp add: last_n_def cache_size_def)
  ultimately show ?thesis
    using t s1(4) s2 s3 s4(1) w w1 c by simp
qed

end
